theory Spec2Isabelle
  imports Main "HOL-Library.Multiset" "HOL-Library.Char_ord"
begin

section \<open>The unbalanced binary tree (include/binary_tree.hpp)\<close>

text \<open>
  A \<open>node*\<close> that is either \<open>nullptr\<close> or the exclusive owner of a node is an
  \<open>option\<close>; the class \<open>node\<close> has the fields \<open>val\<close>, \<open>left\<close> and \<open>right\<close>.
  The element type only needs \<open>==\<close> and \<open>>\<close> (a linear order).
\<close>

datatype 'a node = Node (val: 'a) (left: "'a node option") (right: "'a node option")

text \<open>\<open>node::insert\<close>: equal stops, greater goes right, everything else goes left.\<close>

fun node_insert :: "'a::linorder node \<Rightarrow> 'a \<Rightarrow> 'a node" where
  "node_insert (Node v l r) value =
     (if v = value then Node v l r
      else if value > v then
        (case r of
           None \<Rightarrow> Node v l (Some (Node value None None))
         | Some rn \<Rightarrow> Node v l (Some (node_insert rn value)))
      else
        (case l of
           None \<Rightarrow> Node v (Some (Node value None None)) r
         | Some ln \<Rightarrow> Node v (Some (node_insert ln value)) r))"

text \<open>\<open>node::query\<close>.\<close>

fun query :: "'a::linorder node \<Rightarrow> 'a \<Rightarrow> bool" where
  "query (Node v l r) value =
     (if value = v then True
      else if value > v then
        (case r of None \<Rightarrow> False | Some rn \<Rightarrow> query rn value)
      else
        (case l of None \<Rightarrow> False | Some ln \<Rightarrow> query ln value))"

text \<open>The class \<open>binary_tree\<close> holds the root pointer, initially \<open>nullptr\<close>.\<close>

record 'a binary_tree =
  root :: "'a node option"

definition binary_tree :: "'a binary_tree" where
  "binary_tree = \<lparr>root = None\<rparr>"

text \<open>\<open>binary_tree::insert\<close>.\<close>

definition insert_bt :: "'a::linorder binary_tree \<Rightarrow> 'a \<Rightarrow> 'a binary_tree" where
  "insert_bt t value =
     (case root t of
        None \<Rightarrow> t\<lparr>root := Some (Node value None None)\<rparr>
      | Some n \<Rightarrow> t\<lparr>root := Some (node_insert n value)\<rparr>)"

text \<open>
  \<open>binary_tree::count\<close> returns an \<open>int\<close>: the \<open>bool\<close> of \<open>query\<close> converted,
  1 for true and 0 for false.
\<close>

definition count_bt :: "'a::linorder binary_tree \<Rightarrow> 'a \<Rightarrow> int" where
  "count_bt t value =
     (case root t of None \<Rightarrow> 0 | Some n \<Rightarrow> (if query n value then 1 else 0))"

text \<open>A sequence of \<open>insert\<close> calls, in order, on a tree.\<close>

definition inserts :: "'a::linorder binary_tree \<Rightarrow> 'a list \<Rightarrow> 'a binary_tree" where
  "inserts t xs = foldl insert_bt t xs"

subsection \<open>Notions the properties of the tree are stated with\<close>

text \<open>The value held by each node of a subtree, one entry per node, left to right.\<close>

fun stored :: "'a node \<Rightarrow> 'a list" where
  "stored (Node v l r) =
     (case l of None \<Rightarrow> [] | Some ln \<Rightarrow> stored ln) @ [v] @
     (case r of None \<Rightarrow> [] | Some rn \<Rightarrow> stored rn)"

text \<open>The values reachable through a child pointer.\<close>

definition reachable :: "'a node option \<Rightarrow> 'a set" where
  "reachable p = (case p of None \<Rightarrow> {} | Some n \<Rightarrow> set (stored n))"

text \<open>The ordering invariant, at a node and at every node below it.\<close>

fun ordered :: "'a::linorder node \<Rightarrow> bool" where
  "ordered (Node v l r) =
     ((\<forall>x \<in> reachable l. x < v) \<and> (\<forall>x \<in> reachable r. v < x) \<and>
      (case l of None \<Rightarrow> True | Some ln \<Rightarrow> ordered ln) \<and>
      (case r of None \<Rightarrow> True | Some rn \<Rightarrow> ordered rn))"

definition contents :: "'a binary_tree \<Rightarrow> 'a list" where
  "contents t = (case root t of None \<Rightarrow> [] | Some n \<Rightarrow> stored n)"

definition bst_invariant :: "'a::linorder binary_tree \<Rightarrow> bool" where
  "bst_invariant t = (case root t of None \<Rightarrow> True | Some n \<Rightarrow> ordered n)"

section \<open>The input stream (std::istream, as \<open>run_ops\<close> uses it)\<close>

text \<open>
  \<open>run_ops\<close> reads with \<open>in >> val\<close> and tests \<open>in.good()\<close>. Both belong to the C++
  standard library; they are modelled here as the standard describes them. A stream is
  the characters not yet consumed and the two state bits the program can observe
  (\<open>badbit\<close> is never set when reading from a character sequence).
\<close>

record istream =
  buf :: string
  eofbit :: bool
  failbit :: bool

text \<open>A freshly opened stream over a text.\<close>

definition istream :: "string \<Rightarrow> istream" where
  "istream text = \<lparr>buf = text, eofbit = False, failbit = False\<rparr>"

text \<open>\<open>good()\<close> is true only when no state bit is set, \<open>eofbit\<close> included.\<close>

definition good :: "istream \<Rightarrow> bool" where
  "good s = (\<not> eofbit s \<and> \<not> failbit s)"

text \<open>White space of the classic locale: space, \<open>\t\<close>, \<open>\n\<close>, \<open>\v\<close>, \<open>\f\<close>, \<open>\r\<close>.\<close>

definition isspace :: "char \<Rightarrow> bool" where
  "isspace c = (c \<in> {CHR '' '', CHR 0x09, CHR 0x0A, CHR 0x0B, CHR 0x0C, CHR 0x0D})"

definition isdigit :: "char \<Rightarrow> bool" where
  "isdigit c = (CHR ''0'' \<le> c \<and> c \<le> CHR ''9'')"

definition digit_val :: "char \<Rightarrow> int" where
  "digit_val c = int (of_char c) - 48"

definition decimal :: "string \<Rightarrow> int" where
  "decimal ds = foldl (\<lambda>n c. 10 * n + digit_val c) 0 ds"

text \<open>The range of the 32-bit \<open>int\<close>.\<close>

definition INT_MAX :: int where "INT_MAX = 2147483647"

definition INT_MIN :: int where "INT_MIN = - 2147483648"

text \<open>
  \<open>in >> val\<close> for an \<open>int\<close>, given the stream and the old content \<open>v\<close> of the variable
  (the source calls it \<open>val\<close>). A stream that is not good only gets \<open>failbit\<close> and the
  variable is left alone. Otherwise leading white space is skipped; reaching the end
  there sets \<open>eofbit\<close> and \<open>failbit\<close>. Then an optional sign and the longest run of
  digits are consumed; running into the end of the stream while doing so sets \<open>eofbit\<close>,
  also when the digits read so far form a valid number. No digit at all stores 0 and
  sets \<open>failbit\<close>; a number outside the range of \<open>int\<close> stores the nearest bound and
  sets \<open>failbit\<close>.
\<close>

definition extract_int :: "istream \<Rightarrow> int \<Rightarrow> istream \<times> int" where
  "extract_int s v =
     (if \<not> good s then (s\<lparr>failbit := True\<rparr>, v)
      else
        (case dropWhile isspace (buf s) of
           [] \<Rightarrow> (s\<lparr>buf := [], eofbit := True, failbit := True\<rparr>, v)
         | c # cs \<Rightarrow>
             let b = (if c = CHR ''-'' \<or> c = CHR ''+'' then cs else c # cs);
                 ds = takeWhile isdigit b;
                 rest = dropWhile isdigit b;
                 s1 = s\<lparr>buf := rest, eofbit := (rest = [])\<rparr>;
                 n = (if c = CHR ''-'' then - decimal ds else decimal ds)
             in if ds = [] then (s1\<lparr>failbit := True\<rparr>, 0)
                else if n > INT_MAX then (s1\<lparr>failbit := True\<rparr>, INT_MAX)
                else if n < INT_MIN then (s1\<lparr>failbit := True\<rparr>, INT_MIN)
                else (s1, n)))"

text \<open>\<open>n\<close> extractions in a row, each leaving the stream good: the values read.\<close>

fun extract_many :: "nat \<Rightarrow> istream \<Rightarrow> int \<Rightarrow> (int list \<times> istream \<times> int) option" where
  "extract_many 0 s v = Some ([], s, v)"
| "extract_many (Suc n) s v =
     (case extract_int s v of
        (s', v') \<Rightarrow>
          if good s'
          then (case extract_many n s' v' of
                  None \<Rightarrow> None
                | Some (vs, s'', v'') \<Rightarrow> Some (v' # vs, s'', v''))
          else None)"

text \<open>What \<open><<\<close> prints for an \<open>int\<close> and for a \<open>bool\<close> (no \<open>boolalpha\<close>).\<close>

fun show_nat :: "nat \<Rightarrow> string" where
  "show_nat n =
     (if n < 10 then [''0123456789'' ! n]
      else show_nat (n div 10) @ [''0123456789'' ! (n mod 10)])"

declare show_nat.simps [simp del]

definition show_int :: "int \<Rightarrow> string" where
  "show_int i = (if i < 0 then CHR ''-'' # show_nat (nat (- i)) else show_nat (nat i))"

definition show_bool :: "bool \<Rightarrow> string" where
  "show_bool b = (if b then ''1'' else ''0'')"

section \<open>The replay engine (query.cpp, \<open>run_ops\<close>)\<close>

text \<open>
  The template parameter \<open>query_structure\<close> is any type with \<open>insert\<close> and \<open>count\<close>; it
  is passed as the pair of its two operations over a state \<open>'q\<close>. \<open>count\<close> returns a
  number (an \<open>int\<close> for the tree) that the engine converts to \<open>bool\<close> or prints.
\<close>

record 'q query_structure =
  qs_insert :: "'q \<Rightarrow> int \<Rightarrow> 'q"
  qs_count :: "'q \<Rightarrow> int \<Rightarrow> int"

text \<open>The tree as a query structure (type 3 of \<open>select_qs\<close>).\<close>

definition tree_structure :: "int binary_tree query_structure" where
  "tree_structure = \<lparr>qs_insert = insert_bt, qs_count = count_bt\<rparr>"

text \<open>A call of a member function of the structure under test.\<close>

datatype call = Insert int | Count int

text \<open>
  The state of \<open>run_ops\<close>: the structure under test \<open>qs\<close>, the reference set \<open>us\<close>, the
  flag \<open>insert\<close> (here \<open>insert_mode\<close>), and the lines written so far to \<open>std::cout\<close>
  and \<open>std::cerr\<close> (every output of the function ends with \<open>std::endl\<close>). The field
  \<open>calls\<close> is not a variable of the source: it records, in order, each call the
  engine makes on \<open>qs\<close>.
\<close>

record 'q run_state =
  qs :: 'q
  us :: "int set"
  insert_mode :: bool
  cout :: "string list"
  cerr :: "string list"
  calls :: "call list"

text \<open>\<open>run_ops\<close> either returns or ends the process with \<open>exit(1)\<close>.\<close>

datatype 'q outcome = Returned "'q run_state" | Exited int "'q run_state"

text \<open>\<open>main\<close> returns 0 once \<open>run_ops\<close> has returned; \<open>exit(code)\<close> gives \<open>code\<close>.\<close>

definition exit_status :: "'q outcome \<Rightarrow> int" where
  "exit_status r = (case r of Returned st \<Rightarrow> 0 | Exited code st \<Rightarrow> code)"

text \<open>The state in which \<open>run_ops\<close> ends, whichever way it ends.\<close>

definition final_state :: "'q outcome \<Rightarrow> 'q run_state" where
  "final_state r = (case r of Returned st \<Rightarrow> st | Exited code st \<Rightarrow> st)"

text \<open>The branch \<open>val >= 0\<close>, \<open>insert\<close> true.\<close>

definition on_insert ::
  "'q query_structure \<Rightarrow> bool \<Rightarrow> bool \<Rightarrow> int \<Rightarrow> 'q run_state \<Rightarrow> 'q run_state" where
  "on_insert Q debug validate v st =
     (let st1 = st\<lparr>qs := qs_insert Q (qs st) v, calls := calls st @ [Insert v]\<rparr>;
          st2 = (if validate then st1\<lparr>us := insert v (us st1)\<rparr> else st1)
      in if debug then st2\<lparr>cout := cout st2 @ ['' '' @ show_int v @ '' inserted'']\<rparr>
         else st2)"

text \<open>
  The block \<open>if constexpr (validate)\<close> of a query: \<open>res\<close> is the converted result of
  \<open>qs.count(val)\<close>, compared with \<open>us.count(val)\<close>; on a difference the message with
  \<open>!res\<close> goes to \<open>std::cerr\<close> and the process exits with status 1.
\<close>

definition check_query ::
  "'q query_structure \<Rightarrow> int \<Rightarrow> 'q run_state \<Rightarrow> 'q run_state \<times> int + 'q run_state" where
  "check_query Q v st =
     (let res = (qs_count Q (qs st) v \<noteq> 0);
          st1 = st\<lparr>calls := calls st @ [Count v]\<rparr>
      in if res \<noteq> (v \<in> us st1)
         then Inl (st1\<lparr>cerr := cerr st1 @
                [''Validation error: contains('' @ show_int v @ '') should be '' @
                 show_bool (\<not> res)]\<rparr>, 1)
         else Inr st1)"

text \<open>The block \<open>if constexpr (debug) ... else ...\<close> of a query; it calls \<open>count\<close> itself.\<close>

definition report_query ::
  "'q query_structure \<Rightarrow> bool \<Rightarrow> int \<Rightarrow> 'q run_state \<Rightarrow> 'q run_state" where
  "report_query Q debug v st =
     (let n = qs_count Q (qs st) v;
          st1 = st\<lparr>calls := calls st @ [Count v]\<rparr>
      in if debug
         then st1\<lparr>cout := cout st1 @
                [show_int v @ '' : '' @ (if n \<noteq> 0 then ''found'' else ''not found'')]\<rparr>
         else st1\<lparr>cout := cout st1 @ [show_int n]\<rparr>)"

text \<open>The branch \<open>val >= 0\<close>, \<open>insert\<close> false.\<close>

definition on_query ::
  "'q query_structure \<Rightarrow> bool \<Rightarrow> bool \<Rightarrow> int \<Rightarrow> 'q run_state \<Rightarrow>
   'q run_state \<times> int + 'q run_state" where
  "on_query Q debug validate v st =
     (case (if validate then check_query Q v st else Inr st) of
        Inl stop \<Rightarrow> Inl stop
      | Inr st1 \<Rightarrow> Inr (report_query Q debug v st1))"

text \<open>The branch \<open>val < 0\<close>.\<close>

definition on_toggle :: "bool \<Rightarrow> 'q run_state \<Rightarrow> 'q run_state" where
  "on_toggle debug st =
     (if insert_mode st
      then (if debug then st\<lparr>cout := cout st @ [''Enter queries'']\<rparr> else st)
             \<lparr>insert_mode := False\<rparr>
      else (if debug then st\<lparr>cout := cout st @ [''Enter values to add'']\<rparr> else st)
             \<lparr>insert_mode := True\<rparr>)"

text \<open>The body of the loop after the test of \<open>in.good()\<close>.\<close>

definition loop_body ::
  "'q query_structure \<Rightarrow> bool \<Rightarrow> bool \<Rightarrow> int \<Rightarrow> 'q run_state \<Rightarrow>
   'q run_state \<times> int + 'q run_state" where
  "loop_body Q debug validate v st =
     (if v \<ge> 0 then
        (if insert_mode st then Inr (on_insert Q debug validate v st)
         else on_query Q debug validate v st)
      else Inr (on_toggle debug st))"

text \<open>
  A good extraction consumes at least one character, which is why the loop ends on
  every finite input.
\<close>

lemma dropWhile_shorter:
  "takeWhile P b \<noteq> [] \<Longrightarrow> length (dropWhile P b) < length b"
  by (cases b) (auto split: if_splits intro: le_imp_less_Suc length_dropWhile_le)

lemma extract_int_consumes:
  assumes "extract_int s v = (s', v')" and "good s'"
  shows "length (buf s') < length (buf s)"
proof (cases "dropWhile isspace (buf s)")
  case Nil
  from assms show ?thesis
    unfolding extract_int_def Nil by (auto simp: good_def split: if_splits)
next
  case (Cons c cs)
  define b where "b = (if c = CHR ''-'' \<or> c = CHR ''+'' then cs else c # cs)"
  have b_le: "length b \<le> length (buf s)"
    using length_dropWhile_le[of isspace "buf s"] Cons by (simp add: b_def)
  from assms have "takeWhile isdigit b \<noteq> [] \<and> buf s' = dropWhile isdigit b"
    unfolding extract_int_def Cons by (auto simp: good_def Let_def b_def split: if_splits)
  with dropWhile_shorter[of isdigit b] b_le show ?thesis by simp
qed

text \<open>
  \<open>while (true) { in >> val; if (!in.good()) return; ... }\<close>: the loop of \<open>run_ops\<close>,
  over the stream, the variable \<open>val\<close> and the state.
\<close>

function while_true ::
  "'q query_structure \<Rightarrow> bool \<Rightarrow> bool \<Rightarrow> istream \<Rightarrow> int \<Rightarrow> 'q run_state \<Rightarrow> 'q outcome" where
  "while_true Q debug validate s v st =
     (case extract_int s v of
        (s', v') \<Rightarrow>
          if \<not> good s' then Returned st
          else (case loop_body Q debug validate v' st of
                  Inl (st', code) \<Rightarrow> Exited code st'
                | Inr st' \<Rightarrow> while_true Q debug validate s' v' st'))"
  by pat_completeness auto
termination
  by (relation "measure (\<lambda>(Q, debug, validate, s, v, st). length (buf s))")
     (auto dest: extract_int_consumes[OF sym])

declare while_true.simps [simp del]

text \<open>
  \<open>run_ops<query_structure, debug, validate>(qs, in)\<close>. The variable \<open>val\<close> is declared
  without an initial value; its first content is the argument \<open>v\<close>.
\<close>

definition run_ops ::
  "'q query_structure \<Rightarrow> bool \<Rightarrow> bool \<Rightarrow> 'q \<Rightarrow> istream \<Rightarrow> int \<Rightarrow> 'q outcome" where
  "run_ops Q debug validate q s v =
     while_true Q debug validate s v
       \<lparr>qs = q, us = {}, insert_mode = True,
        cout = (if debug then [''Enter values to add''] else []), cerr = [], calls = []\<rparr>"

text \<open>
  A deliberately wrong structure under test: it ignores insertions and answers false.
\<close>

definition broken_structure :: "unit query_structure" where
  "broken_structure = \<lparr>qs_insert = (\<lambda>q v. q), qs_count = (\<lambda>q v. 0)\<rparr>"

section \<open>Nodes as objects in memory: allocation and teardown\<close>

text \<open>
  To state who releases which node, the nodes are placed in a store: a map from
  addresses to node objects whose \<open>left\<close> and \<open>right\<close> fields hold addresses.
  \<open>new node(value)\<close> takes the next unused address (addresses are never reused while
  the tree is built, and nothing is allocated while it is destroyed). \<open>root_h\<close> is the
  field \<open>root\<close> of the \<open>binary_tree\<close> object. The field \<open>released\<close> is not a variable of
  the source: it lists, in order, the addresses whose memory \<open>delete\<close> has given
  back.
\<close>

type_synonym addr = nat

record 'a node_h =
  val_h :: 'a
  left_h :: "addr option"
  right_h :: "addr option"

record 'a store =
  root_h :: "addr option"
  nodes :: "addr \<rightharpoonup> 'a node_h"
  next_addr :: addr
  released :: "addr list"

text \<open>
  Recursion through addresses need not end on an arbitrary store, so the recursive
  functions carry a bound on the depth of calls; running out of it, reading through a
  pointer to no live node, and deleting what is not live are results of their own.
\<close>

datatype fault = Out_of_fuel | Dangling addr | Invalid_delete addr

text \<open>The store of a freshly constructed, empty \<open>binary_tree\<close>.\<close>

definition empty_store :: "'a store" where
  "empty_store = \<lparr>root_h = None, nodes = Map.empty, next_addr = 0, released = []\<rparr>"

text \<open>\<open>new node(value)\<close>: both children are \<open>nullptr\<close>.\<close>

definition new_node :: "'a \<Rightarrow> 'a store \<Rightarrow> addr \<times> 'a store" where
  "new_node value m =
     (next_addr m,
      m\<lparr>nodes := (nodes m)(next_addr m \<mapsto> \<lparr>val_h = value, left_h = None, right_h = None\<rparr>),
        next_addr := Suc (next_addr m)\<rparr>)"

text \<open>\<open>node::insert\<close> on the node at address \<open>p\<close>.\<close>

fun node_insert_h :: "nat \<Rightarrow> addr \<Rightarrow> 'a::linorder \<Rightarrow> 'a store \<Rightarrow> fault + 'a store" where
  "node_insert_h 0 p value m = Inl Out_of_fuel"
| "node_insert_h (Suc k) p value m =
     (case nodes m p of
        None \<Rightarrow> Inl (Dangling p)
      | Some n \<Rightarrow>
          if val_h n = value then Inr m
          else if value > val_h n then
            (case right_h n of
               None \<Rightarrow>
                 (case new_node value m of
                    (a, m1) \<Rightarrow> Inr (m1\<lparr>nodes := (nodes m1)(p \<mapsto> n\<lparr>right_h := Some a\<rparr>)\<rparr>))
             | Some r \<Rightarrow> node_insert_h k r value m)
          else
            (case left_h n of
               None \<Rightarrow>
                 (case new_node value m of
                    (a, m1) \<Rightarrow> Inr (m1\<lparr>nodes := (nodes m1)(p \<mapsto> n\<lparr>left_h := Some a\<rparr>)\<rparr>))
             | Some l \<Rightarrow> node_insert_h k l value m))"

text \<open>\<open>binary_tree::insert\<close>.\<close>

definition insert_h :: "nat \<Rightarrow> 'a::linorder \<Rightarrow> 'a store \<Rightarrow> fault + 'a store" where
  "insert_h k value m =
     (case root_h m of
        None \<Rightarrow> (case new_node value m of (a, m1) \<Rightarrow> Inr (m1\<lparr>root_h := Some a\<rparr>))
      | Some p \<Rightarrow> node_insert_h k p value m)"

text \<open>A sequence of \<open>insert\<close> calls, in order.\<close>

fun inserts_h :: "nat \<Rightarrow> 'a::linorder list \<Rightarrow> 'a store \<Rightarrow> fault + 'a store" where
  "inserts_h k [] m = Inr m"
| "inserts_h k (x # xs) m =
     (case insert_h k x m of Inl e \<Rightarrow> Inl e | Inr m1 \<Rightarrow> inserts_h k xs m1)"

text \<open>
  \<open>delete (p)\<close> for a \<open>node*\<close>: the destructor \<open>~node\<close> runs first (it deletes \<open>left\<close>
  when it is not \<open>nullptr\<close>, then \<open>right\<close>, each field read from the object at that
  moment), then the memory of the object is given back.
\<close>

fun delete_node :: "nat \<Rightarrow> addr \<Rightarrow> 'a store \<Rightarrow> fault + 'a store" where
  "delete_node 0 p m = Inl Out_of_fuel"
| "delete_node (Suc k) p m =
     (case nodes m p of
        None \<Rightarrow> Inl (Invalid_delete p)
      | Some n \<Rightarrow>
          (case (case left_h n of None \<Rightarrow> Inr m | Some l \<Rightarrow> delete_node k l m) of
             Inl e \<Rightarrow> Inl e
           | Inr m1 \<Rightarrow>
               (case nodes m1 p of
                  None \<Rightarrow> Inl (Dangling p)
                | Some n1 \<Rightarrow>
                    (case (case right_h n1 of None \<Rightarrow> Inr m1 | Some r \<Rightarrow> delete_node k r m1) of
                       Inl e \<Rightarrow> Inl e
                     | Inr m2 \<Rightarrow>
                         (case nodes m2 p of
                            None \<Rightarrow> Inl (Invalid_delete p)
                          | Some n2 \<Rightarrow>
                              Inr (m2\<lparr>nodes := (nodes m2)(p := None),
                                     released := released m2 @ [p]\<rparr>))))))"

text \<open>The destructor \<open>~binary_tree\<close>.\<close>

definition destroy_bt :: "nat \<Rightarrow> 'a store \<Rightarrow> fault + 'a store" where
  "destroy_bt k m = (case root_h m of None \<Rightarrow> Inr m | Some p \<Rightarrow> delete_node k p m)"

subsection \<open>The store and the tree it holds\<close>

text \<open>
  \<open>repr c p t as\<close>: in the node map \<open>c\<close> the pointer \<open>p\<close> leads to a copy of the tree
  \<open>t\<close> whose nodes sit at the addresses \<open>as\<close> (children before their parent, left
  before right), no address being used twice.
\<close>

inductive repr ::
  "(addr \<rightharpoonup> 'a node_h) \<Rightarrow> addr option \<Rightarrow> 'a node option \<Rightarrow> addr list \<Rightarrow> bool"
  for c :: "addr \<rightharpoonup> 'a node_h" where
  repr_null: "repr c None None []"
| repr_node: "c p = Some \<lparr>val_h = v, left_h = lp, right_h = rp\<rparr> \<Longrightarrow>
     repr c lp l ls \<Longrightarrow> repr c rp r rs \<Longrightarrow>
     p \<notin> set ls \<Longrightarrow> p \<notin> set rs \<Longrightarrow> set ls \<inter> set rs = {} \<Longrightarrow>
     repr c (Some p) (Some (Node v l r)) (ls @ rs @ [p])"

text \<open>The store after the nodes at \<open>as\<close> have been released in that order.\<close>

definition free_all :: "addr list \<Rightarrow> 'a store \<Rightarrow> 'a store" where
  "free_all as m =
     m\<lparr>nodes := (\<lambda>a. if a \<in> set as then None else nodes m a),
       released := released m @ as\<rparr>"

text \<open>
  How an insertion below a subtree at \<open>as\<close> may change the store: the subtree keeps its
  nodes and gains at most the next unused address, and nothing outside it changes.
\<close>

definition grown :: "'a store \<Rightarrow> addr list \<Rightarrow> 'a store \<Rightarrow> addr list \<Rightarrow> bool" where
  "grown m as m' as' =
     (set as \<subseteq> set as' \<and> set as' \<subseteq> insert (next_addr m) (set as) \<and>
      (\<forall>a. a \<notin> set as' \<longrightarrow> nodes m' a = nodes m a) \<and>
      (\<forall>a \<in> set as'. a < next_addr m') \<and> next_addr m \<le> next_addr m' \<and>
      released m' = released m \<and> root_h m' = root_h m)"

text \<open>
  The store holds exactly the tree \<open>t\<close>: every live node belongs to it, and nothing has
  been released yet.
\<close>

definition store_inv :: "'a store \<Rightarrow> 'a binary_tree \<Rightarrow> addr list \<Rightarrow> bool" where
  "store_inv m t as =
     (repr (nodes m) (root_h m) (root t) as \<and> set as = dom (nodes m) \<and>
      (\<forall>a \<in> set as. a < next_addr m) \<and> released m = [])"

section \<open>Properties of the binary tree\<close>

lemma set_stored_node_insert: "set (stored (node_insert n x)) = insert x (set (stored n))"
  by (induction n x rule: node_insert.induct) (auto split: option.splits)

lemma ordered_node_insert: "ordered n \<Longrightarrow> ordered (node_insert n x)"
  by (induction n x rule: node_insert.induct)
     (auto simp: reachable_def set_stored_node_insert split: option.splits)

lemma query_iff: "ordered n \<Longrightarrow> query n x = (x \<in> set (stored n))"
  by (induction n x rule: query.induct)
     (auto simp: reachable_def split: option.splits)

lemma distinct_stored: "ordered n \<Longrightarrow> distinct (stored n)"
  by (induction n rule: stored.induct)
     (fastforce simp: reachable_def split: option.splits)

lemma node_insert_present: "ordered n \<Longrightarrow> x \<in> set (stored n) \<Longrightarrow> node_insert n x = n"
  by (induction n x rule: node_insert.induct)
     (fastforce simp: reachable_def split: option.splits)

lemma bst_invariant_empty: "bst_invariant binary_tree"
  by (simp add: bst_invariant_def binary_tree_def)

lemma bst_invariant_insert_bt: "bst_invariant t \<Longrightarrow> bst_invariant (insert_bt t x)"
  by (auto simp: bst_invariant_def insert_bt_def reachable_def ordered_node_insert
           split: option.splits)

lemma contents_insert_bt: "set (contents (insert_bt t x)) = insert x (set (contents t))"
  by (cases "root t") (simp_all add: contents_def insert_bt_def set_stored_node_insert)

lemma bst_invariant_inserts: "bst_invariant t \<Longrightarrow> bst_invariant (inserts t xs)"
  unfolding inserts_def
  by (induction xs arbitrary: t) (simp_all add: bst_invariant_insert_bt)

lemma contents_inserts: "set (contents (inserts t xs)) = set (contents t) \<union> set xs"
  by (induction xs arbitrary: t) (simp_all add: inserts_def contents_insert_bt)

lemma count_bt_contents:
  "bst_invariant t \<Longrightarrow> count_bt t x = (if x \<in> set (contents t) then 1 else 0)"
  by (auto simp: bst_invariant_def count_bt_def contents_def query_iff split: option.splits)

lemma insert_bt_present:
  "bst_invariant t \<Longrightarrow> x \<in> set (contents t) \<Longrightarrow> insert_bt t x = t"
  by (auto simp: bst_invariant_def insert_bt_def contents_def node_insert_present
           split: option.splits)

text \<open>
  Claim C1. The tree realises a set: after any finite sequence of \<open>insert\<close> calls on an
  initially empty \<open>binary_tree\<close>, \<open>count(v)\<close> is true (the int 1) exactly when \<open>v\<close>
  occurs in the inserted sequence and false (0) otherwise; on the empty tree
  \<open>count(v)\<close> is false for every \<open>v\<close>.
\<close>

theorem count_inserts_iff_member:
  "count_bt (inserts binary_tree xs) v = (if v \<in> set xs then 1 else 0) \<and>
   (count_bt (inserts binary_tree xs) v \<noteq> 0) = (v \<in> set xs) \<and>
   count_bt binary_tree v = 0"
  using count_bt_contents[OF bst_invariant_inserts[OF bst_invariant_empty],
          where x = v and xs1 = xs]
  by (simp add: contents_inserts) (simp add: contents_def count_bt_def binary_tree_def)

text \<open>
  Claim C4. After every sequence of \<open>insert\<close> calls, every node satisfies the ordering
  invariant (all values reachable through the left child are strictly less than the
  node's value, all values reachable through the right child strictly greater), and no
  value is held by more than one node.
\<close>

theorem inserts_ordered_distinct:
  "bst_invariant (inserts binary_tree xs) \<and> distinct (contents (inserts binary_tree xs))"
  using bst_invariant_inserts[OF bst_invariant_empty, of xs]
  by (auto simp: bst_invariant_def contents_def distinct_stored split: option.splits)

theorem inserts_ordered_distinct_witness:
  "inserts binary_tree [5, 3, 8, 3 :: int] =
     \<lparr>root = Some (Node 5 (Some (Node 3 None None)) (Some (Node 8 None None)))\<rparr> \<and>
   reachable (root (inserts binary_tree [5, 3, 8, 3 :: int])) = {3, 5, 8} \<and>
   bst_invariant (inserts binary_tree [5, 3, 8, 3 :: int]) \<and>
   distinct (contents (inserts binary_tree [5, 3, 8, 3 :: int]))"
  using inserts_ordered_distinct[of "[5, 3, 8, 3 :: int]"]
  by (auto simp add: inserts_def insert_bt_def binary_tree_def reachable_def)

text \<open>
  Claim C5. Insertion is idempotent: when \<open>v\<close> is already present after a sequence of
  insertions, inserting \<open>v\<close> again leaves \<open>count(w)\<close> unchanged for every \<open>w\<close>.
\<close>

theorem insert_present_count_unchanged:
  "count_bt (inserts binary_tree xs) v \<noteq> 0 \<Longrightarrow>
   count_bt (insert_bt (inserts binary_tree xs) v) w = count_bt (inserts binary_tree xs) w"
proof -
  assume present: "count_bt (inserts binary_tree xs) v \<noteq> 0"
  have inv: "bst_invariant (inserts binary_tree xs)"
    by (rule bst_invariant_inserts[OF bst_invariant_empty])
  from present have "v \<in> set (contents (inserts binary_tree xs))"
    by (simp add: count_bt_contents[OF inv] split: if_splits)
  with inv have "insert_bt (inserts binary_tree xs) v = inserts binary_tree xs"
    by (rule insert_bt_present)
  then show ?thesis by simp
qed

theorem insert_present_count_unchanged_witness:
  "count_bt (inserts binary_tree [5, 3, 8 :: int]) 3 \<noteq> 0 \<and>
   count_bt (insert_bt (inserts binary_tree [5, 3, 8 :: int]) 3) 8 =
   count_bt (inserts binary_tree [5, 3, 8 :: int]) 8"
proof -
  have h: "count_bt (inserts binary_tree [5, 3, 8 :: int]) 3 \<noteq> 0"
    by (simp add: inserts_def insert_bt_def binary_tree_def count_bt_def)
  show ?thesis using h insert_present_count_unchanged[OF h, of 8] by simp
qed

text \<open>
  Claim C6. Membership does not depend on the insertion order: the trees built from a
  sequence and from any permutation of it agree on \<open>count(v)\<close> for every \<open>v\<close>
  (their shapes may differ).
\<close>

theorem count_inserts_permutation:
  "mset xs = mset ys \<Longrightarrow>
   count_bt (inserts binary_tree xs) v = count_bt (inserts binary_tree ys) v"
proof -
  assume "mset xs = mset ys"
  then have "set xs = set ys" by (rule mset_eq_setD)
  then show ?thesis
    by (simp add: count_bt_contents[OF bst_invariant_inserts[OF bst_invariant_empty]]
          contents_inserts)
qed

theorem count_inserts_permutation_witness:
  "mset [5, 3, 8 :: int] = mset [3, 8, 5] \<and>
   inserts binary_tree [5, 3, 8 :: int] \<noteq> inserts binary_tree [3, 8, 5 :: int] \<and>
   count_bt (inserts binary_tree [5, 3, 8 :: int]) 8 =
   count_bt (inserts binary_tree [3, 8, 5 :: int]) 8"
proof -
  have h: "mset [5, 3, 8 :: int] = mset [3, 8, 5]" by simp
  have d: "inserts binary_tree [5, 3, 8 :: int] \<noteq> inserts binary_tree [3, 8, 5 :: int]"
    by (simp add: inserts_def insert_bt_def binary_tree_def)
  show ?thesis using h d count_inserts_permutation[OF h, of 8] by simp
qed

section \<open>Properties of the replay engine\<close>

lemmas run_eval = run_ops_def while_true.simps extract_int_def good_def isspace_def isdigit_def
  digit_val_def decimal_def INT_MAX_def INT_MIN_def loop_body_def on_insert_def on_query_def
  check_query_def report_query_def on_toggle_def show_int_def show_nat.simps show_bool_def
  istream_def Let_def

lemmas tree_eval = tree_structure_def insert_bt_def count_bt_def binary_tree_def

text \<open>One turn of the loop, in its three outcomes.\<close>

lemma while_true_stop:
  "extract_int s v = (s', v') \<Longrightarrow> \<not> good s' \<Longrightarrow>
   while_true Q debug validate s v st = Returned st"
  by (simp add: while_true.simps)

lemma while_true_step:
  "extract_int s v = (s', v') \<Longrightarrow> good s' \<Longrightarrow> loop_body Q debug validate v' st = Inr st' \<Longrightarrow>
   while_true Q debug validate s v st = while_true Q debug validate s' v' st'"
  by (simp add: while_true.simps)

lemma while_true_exit:
  "extract_int s v = (s', v') \<Longrightarrow> good s' \<Longrightarrow>
   loop_body Q debug validate v' st = Inl (st', code) \<Longrightarrow>
   while_true Q debug validate s v st = Exited code st'"
  by (simp add: while_true.simps)

text \<open>
  Claim C3. On the literal stream \<open>5 3 8 -1 3 99 -1\<close>, starting in INSERT mode with
  debug and validation disabled, the engine inserts 5, 3 and 8, toggles to QUERY mode,
  queries 3 and 99, and the primary output is exactly the two lines \<open>1\<close> and \<open>0\<close>, in
  that order. This holds for the stream as written and for the stream followed by a
  newline, and whatever the variable \<open>val\<close> held at the start.
\<close>

theorem replay_literal_stream:
  "run_ops tree_structure False False binary_tree (istream ''5 3 8 -1 3 99 -1'') v =
     Returned \<lparr>qs = \<lparr>root = Some (Node 5 (Some (Node 3 None None)) (Some (Node 8 None None)))\<rparr>,
       us = {}, insert_mode = False, cout = [''1'', ''0''], cerr = [],
       calls = [Insert 5, Insert 3, Insert 8, Count 3, Count 99]\<rparr> \<and>
   run_ops tree_structure False False binary_tree
       (istream (''5 3 8 -1 3 99 -1'' @ [CHR 0x0A])) v =
     Returned \<lparr>qs = \<lparr>root = Some (Node 5 (Some (Node 3 None None)) (Some (Node 8 None None)))\<rparr>,
       us = {}, insert_mode = True, cout = [''1'', ''0''], cerr = [],
       calls = [Insert 5, Insert 3, Insert 8, Count 3, Count 99]\<rparr>"
  by (simp add: run_eval tree_eval)

text \<open>
  Claim C2 (every integer read is acted upon, none is dropped) fails on the loop as
  written. The loop tests \<open>in.good()\<close>, which is also false when the extraction
  succeeded but ran into the end of the stream: on \<open>5 -1 5\<close> with nothing after the
  last digit, the last extraction yields 5 with \<open>failbit\<close> clear, yet \<open>run_ops\<close>
  returns without the query and nothing is printed. The same stream followed by a
  newline prints \<open>1\<close>.
\<close>

theorem last_integer_without_newline_dropped:
  "extract_int \<lparr>buf = '' 5'', eofbit = False, failbit = False\<rparr> (- 1) =
     (\<lparr>buf = [], eofbit = True, failbit = False\<rparr>, 5) \<and>
   run_ops tree_structure False False binary_tree (istream ''5 -1 5'') v =
     Returned \<lparr>qs = \<lparr>root = Some (Node 5 None None)\<rparr>,
       us = {}, insert_mode = False, cout = [], cerr = [], calls = [Insert 5]\<rparr> \<and>
   run_ops tree_structure False False binary_tree (istream (''5 -1 5'' @ [CHR 0x0A])) v =
     Returned \<lparr>qs = \<lparr>root = Some (Node 5 None None)\<rparr>,
       us = {}, insert_mode = False, cout = [''1''], cerr = [], calls = [Insert 5, Count 5]\<rparr>"
  by (simp add: run_eval tree_eval)

text \<open>
  When white space follows the last integer of the stream, an extraction that succeeds
  leaves the stream good, so the loop acts on every integer it reads.
\<close>

lemma dropWhile_keeps_last:
  "xs \<noteq> [] \<Longrightarrow> \<not> P (last xs) \<Longrightarrow> dropWhile P xs \<noteq> [] \<and> last (dropWhile P xs) = last xs"
  by (induction xs) (auto split: if_splits)

lemma isspace_not_isdigit: "isspace c \<Longrightarrow> \<not> isdigit c"
  by (auto simp: isspace_def isdigit_def)

lemma extract_int_terminated:
  assumes "good s" and "buf s \<noteq> []" and "isspace (last (buf s))"
    and "extract_int s v = (s', v')" and "\<not> failbit s'"
  shows "good s' \<and> buf s' \<noteq> [] \<and> isspace (last (buf s'))"
proof (cases "dropWhile isspace (buf s)")
  case Nil
  with assms(1,4,5) show ?thesis
    unfolding extract_int_def Nil by (auto simp: good_def)
next
  case (Cons c cs)
  define b where "b = (if c = CHR ''-'' \<or> c = CHR ''+'' then cs else c # cs)"
  have c: "\<not> isspace c"
    using Cons by (metis hd_dropWhile list.sel(1) list.distinct(1))
  have "buf s = takeWhile isspace (buf s) @ c # cs"
    using takeWhile_dropWhile_id[of isspace "buf s"] Cons by simp
  then have "last (buf s) = last (c # cs)"
    by (metis last_appendR list.distinct(1))
  with assms(3) c have cs: "cs \<noteq> []" and last_cs: "isspace (last cs)"
    by (auto split: if_splits)
  then have b: "b \<noteq> []" and last_b: "\<not> isdigit (last b)"
    by (auto simp: b_def isspace_not_isdigit)
  from dropWhile_keeps_last[of b isdigit, OF b last_b] last_cs cs
  have rest: "dropWhile isdigit b \<noteq> []" and last_rest: "isspace (last (dropWhile isdigit b))"
    by (auto simp: b_def split: if_splits)
  from assms(1,4,5) have "s' = s\<lparr>buf := dropWhile isdigit b, eofbit := (dropWhile isdigit b = [])\<rparr>"
    unfolding extract_int_def Cons by (auto simp: good_def Let_def b_def split: if_splits)
  with rest last_rest assms(1) show ?thesis by (simp add: good_def)
qed


lemma while_true_terminated:
  assumes "good s" and "buf s \<noteq> []" and "isspace (last (buf s))"
    and "extract_int s v = (s', v')" and "\<not> failbit s'"
  shows "while_true Q debug validate s v st =
         (case loop_body Q debug validate v' st of
            Inl (st', code) \<Rightarrow> Exited code st'
          | Inr st' \<Rightarrow> while_true Q debug validate s' v' st')"
  using extract_int_terminated[OF assms] assms(4) by (simp add: while_true.simps)

text \<open>
  A negative value that the loop accepts only toggles; \<open>n\<close> of them in a row toggle
  \<open>n\<close> times.
\<close>

lemma loop_body_negative: "v < 0 \<Longrightarrow> loop_body Q debug validate v st = Inr (on_toggle debug st)"
  by (simp add: loop_body_def)

lemma on_toggle_fields:
  "qs (on_toggle debug st) = qs st"
  "us (on_toggle debug st) = us st"
  "calls (on_toggle debug st) = calls st"
  "cerr (on_toggle debug st) = cerr st"
  "insert_mode (on_toggle debug st) = (\<not> insert_mode st)"
  "cout (on_toggle False st) = cout st"
  "length (cout (on_toggle True st)) = Suc (length (cout st))"
  by (simp_all add: on_toggle_def)

lemma on_toggle_funpow_fields:
  "qs ((on_toggle debug ^^ n) st) = qs st"
  "us ((on_toggle debug ^^ n) st) = us st"
  "calls ((on_toggle debug ^^ n) st) = calls st"
  "cerr ((on_toggle debug ^^ n) st) = cerr st"
  "insert_mode ((on_toggle debug ^^ n) st) = (if even n then insert_mode st else \<not> insert_mode st)"
  "cout ((on_toggle False ^^ n) st) = cout st"
  "length (cout ((on_toggle True ^^ n) st)) = length (cout st) + n"
  by (induction n) (simp_all add: on_toggle_fields)

lemma while_true_negative_run:
  "extract_many n s v = Some (vs, s', v') \<Longrightarrow> \<forall>x \<in> set vs. x < 0 \<Longrightarrow>
   while_true Q debug validate s v st =
   while_true Q debug validate s' v' ((on_toggle debug ^^ n) st)"
proof (induction n arbitrary: s v st vs)
  case 0
  then show ?case by simp
next
  case (Suc n)
  obtain s1 v1 where ex: "extract_int s v = (s1, v1)" by (cases "extract_int s v")
  with Suc.prems(1) have g: "good s1" by (auto split: if_splits)
  with Suc.prems(1) ex obtain vs1 where
    rest: "extract_many n s1 v1 = Some (vs1, s', v')" and vs: "vs = v1 # vs1"
    by (auto split: option.splits)
  from vs Suc.prems(2) have neg: "v1 < 0" and negs: "\<forall>x \<in> set vs1. x < 0" by simp_all
  have "while_true Q debug validate s v st =
        while_true Q debug validate s1 v1 (on_toggle debug st)"
    by (rule while_true_step[OF ex g loop_body_negative[OF neg]])
  also have "\<dots> = while_true Q debug validate s' v' ((on_toggle debug ^^ n) (on_toggle debug st))"
    by (rule Suc.IH[OF rest negs])
  finally show ?case by (simp add: funpow_swap1)
qed

text \<open>
  Claim C7 (each negative integer read toggles the mode exactly once, so \<open>n\<close> in a
  row toggle it \<open>n\<close> times and an even number leaves it unchanged) fails on the loop as
  written, through the defect shown for claim C2. On \<open>-1 -2\<close> with nothing after the
  last digit the second extraction yields \<open>-2\<close> with \<open>failbit\<close> clear, but it reaches
  the end of the stream, \<open>in.good()\<close> is false and \<open>run_ops\<close> returns before the
  toggle: two negative integers in a row toggle the mode once, the run ends in QUERY
  mode and debug mode prints one prompt for them. The same stream followed by a
  newline toggles twice. A lone \<open>-1\<close> does not toggle at all.
\<close>

theorem unterminated_negative_token_not_toggled:
  "extract_int \<lparr>buf = '' -2'', eofbit = False, failbit = False\<rparr> (- 1) =
     (\<lparr>buf = [], eofbit = True, failbit = False\<rparr>, - 2) \<and>
   run_ops tree_structure True False binary_tree (istream ''-1 -2'') v =
     Returned \<lparr>qs = \<lparr>root = None\<rparr>, us = {}, insert_mode = False,
       cout = [''Enter values to add'', ''Enter queries''], cerr = [], calls = []\<rparr> \<and>
   run_ops tree_structure True False binary_tree (istream (''-1 -2'' @ [CHR 0x0A])) v =
     Returned \<lparr>qs = \<lparr>root = None\<rparr>, us = {}, insert_mode = True,
       cout = [''Enter values to add'', ''Enter queries'', ''Enter values to add''],
       cerr = [], calls = []\<rparr> \<and>
   run_ops tree_structure False False binary_tree (istream ''-1'') v =
     Returned \<lparr>qs = \<lparr>root = None\<rparr>, us = {}, insert_mode = True,
       cout = [], cerr = [], calls = []\<rparr>"
  by (simp add: run_eval tree_eval)

text \<open>The loop only ever appends to the calls made and to the lines written.\<close>

lemma loop_body_extends:
  "\<exists>cs ls. (case loop_body Q debug validate v st of Inl (st', code) \<Rightarrow> calls st' = calls st @ cs \<and> cout st' = cout st @ ls
     | Inr st' \<Rightarrow> calls st' = calls st @ cs \<and> cout st' = cout st @ ls)"
  by (auto simp: loop_body_def on_insert_def on_query_def check_query_def report_query_def
        on_toggle_def Let_def)

lemma while_true_extends:
  "\<exists>cs ls. calls (final_state (while_true Q debug validate s v st)) = calls st @ cs \<and>
           cout (final_state (while_true Q debug validate s v st)) = cout st @ ls"
proof (induction Q debug validate s v st rule: while_true.induct)
  case (1 Q debug validate s v st)
  obtain s1 v1 where ex: "extract_int s v = (s1, v1)" by (cases "extract_int s v")
  show ?case
  proof (cases "good s1")
    case False
    with ex show ?thesis by (simp add: while_true.simps final_state_def)
  next
    case True
    from loop_body_extends[where Q = Q and debug = debug and validate = validate and v = v1 and st = st] obtain cs ls where
      step: "(case loop_body Q debug validate v1 st of
               Inl (st', code) \<Rightarrow> calls st' = calls st @ cs \<and> cout st' = cout st @ ls
             | Inr st' \<Rightarrow> calls st' = calls st @ cs \<and> cout st' = cout st @ ls)"
      by blast
    show ?thesis
    proof (cases "loop_body Q debug validate v1 st")
      case (Inl stop)
      obtain st1 c where stop: "stop = (st1, c)" by (cases stop)
      with Inl ex True step show ?thesis
        by (auto simp: while_true.simps final_state_def)
    next
      case (Inr st1)
      from "1.IH"[OF ex[symmetric] _ Inr] True obtain cs' ls' where
        "calls (final_state (while_true Q debug validate s1 v1 st1)) = calls st1 @ cs'"
        "cout (final_state (while_true Q debug validate s1 v1 st1)) = cout st1 @ ls'"
        by auto
      with Inr ex True step show ?thesis
        by (auto simp: while_true.simps)
    qed
  qed
qed

text \<open>
  Claim C9. With validation enabled and debug disabled, a query whose cross-check
  passes still writes its result line to \<open>std::cout\<close>, after the check, and \<open>count\<close>
  is called twice on the structure under test, once for the comparison and once for
  the line: the turn of the loop appends \<open>Count v\<close> twice to the calls and the line to
  the output, the run goes on from that state, and in the state in which the run ends
  the calls made before the query are followed by exactly these two calls and the
  lines written before it by this line. For a \<open>count\<close> that returns 0 or 1 the line
  is \<open>0\<close> or \<open>1\<close>.
\<close>

theorem validated_query_counts_twice:
  assumes "extract_int s v0 = (s', v)" and "good s'" and "0 \<le> v" and "\<not> insert_mode st"
    and "(qs_count Q (qs st) v \<noteq> 0) = (v \<in> us st)"
  shows "loop_body Q False True v st =
           Inr (st\<lparr>calls := calls st @ [Count v, Count v],
                   cout := cout st @ [show_int (qs_count Q (qs st) v)]\<rparr>) \<and>
         while_true Q False True s v0 st =
           while_true Q False True s' v
             (st\<lparr>calls := calls st @ [Count v, Count v],
                 cout := cout st @ [show_int (qs_count Q (qs st) v)]\<rparr>) \<and>
         (\<exists>cs ls.
            calls (final_state (while_true Q False True s v0 st)) =
              calls st @ [Count v, Count v] @ cs \<and>
            cout (final_state (while_true Q False True s v0 st)) =
              cout st @ [show_int (qs_count Q (qs st) v)] @ ls) \<and>
         (qs_count Q (qs st) v \<in> {0, 1} \<longrightarrow>
            show_int (qs_count Q (qs st) v) = (if v \<in> us st then ''1'' else ''0''))"
proof -
  let ?st' = "st\<lparr>calls := calls st @ [Count v, Count v],
                 cout := cout st @ [show_int (qs_count Q (qs st) v)]\<rparr>"
  have body: "loop_body Q False True v st = Inr ?st'"
    using assms(3-5)
    by (simp add: loop_body_def on_query_def check_query_def report_query_def Let_def)
  have run: "while_true Q False True s v0 st = while_true Q False True s' v ?st'"
    by (rule while_true_step[OF assms(1,2) body])
  from while_true_extends[where Q = Q and debug = False and validate = True and s = s' and v = v and st = ?st'] run
  have trace: "\<exists>cs ls.
            calls (final_state (while_true Q False True s v0 st)) =
              calls st @ [Count v, Count v] @ cs \<and>
            cout (final_state (while_true Q False True s v0 st)) =
              cout st @ [show_int (qs_count Q (qs st) v)] @ ls"
    by simp
  have line: "qs_count Q (qs st) v \<in> {0, 1} \<longrightarrow>
            show_int (qs_count Q (qs st) v) = (if v \<in> us st then ''1'' else ''0'')"
    using assms(5) by (auto simp: show_int_def show_nat.simps)
  from body run trace line show ?thesis by (intro conjI)
qed

theorem validated_query_counts_twice_witness:
  "extract_int \<lparr>buf = '' 3 99 '', eofbit = False, failbit = False\<rparr> (- 1) =
     (\<lparr>buf = '' 99 '', eofbit = False, failbit = False\<rparr>, 3) \<and>
   good \<lparr>buf = '' 99 '', eofbit = False, failbit = False\<rparr> \<and>
   (qs_count tree_structure (inserts binary_tree [5, 3]) 3 \<noteq> 0) = (3 \<in> {5, 3 :: int}) \<and>
   loop_body tree_structure False True 3
     \<lparr>qs = inserts binary_tree [5, 3], us = {5, 3}, insert_mode = False, cout = [], cerr = [],
      calls = [Insert 5, Insert 3]\<rparr> =
   Inr \<lparr>qs = inserts binary_tree [5, 3], us = {5, 3}, insert_mode = False, cout = [''1''],
      cerr = [], calls = [Insert 5, Insert 3, Count 3, Count 3]\<rparr> \<and>
   while_true tree_structure False True \<lparr>buf = '' 3 99 '', eofbit = False, failbit = False\<rparr> (- 1)
     \<lparr>qs = inserts binary_tree [5, 3], us = {5, 3}, insert_mode = False, cout = [], cerr = [],
      calls = [Insert 5, Insert 3]\<rparr> =
   Returned \<lparr>qs = inserts binary_tree [5, 3], us = {5, 3}, insert_mode = False,
      cout = [''1'', ''0''], cerr = [],
      calls = [Insert 5, Insert 3, Count 3, Count 3, Count 99, Count 99]\<rparr>"
proof -
  let ?s = "\<lparr>buf = '' 3 99 '', eofbit = False, failbit = False\<rparr>"
  let ?s' = "\<lparr>buf = '' 99 '', eofbit = False, failbit = False\<rparr>"
  let ?st = "\<lparr>qs = inserts binary_tree [5, 3], us = {5, 3 :: int}, insert_mode = False, cout = [],
      cerr = [], calls = [Insert 5, Insert 3]\<rparr>"
  have e: "extract_int ?s (- 1) = (?s', 3)" by (simp add: run_eval)
  have g: "good ?s'" by (simp add: good_def)
  have m: "\<not> insert_mode ?st" by simp
  have c: "(qs_count tree_structure (qs ?st) 3 \<noteq> 0) = (3 \<in> us ?st)"
    by (simp add: tree_eval inserts_def)
  have r: "while_true tree_structure False True ?s' 3
     \<lparr>qs = inserts binary_tree [5, 3], us = {5, 3}, insert_mode = False, cout = [''1''],
      cerr = [], calls = [Insert 5, Insert 3, Count 3, Count 3]\<rparr> =
   Returned \<lparr>qs = inserts binary_tree [5, 3], us = {5, 3}, insert_mode = False,
      cout = [''1'', ''0''], cerr = [],
      calls = [Insert 5, Insert 3, Count 3, Count 3, Count 99, Count 99]\<rparr>"
    by (simp add: run_eval tree_eval inserts_def)
  show ?thesis
    using e g c r validated_query_counts_twice[OF e g _ m c]
    by (simp add: tree_eval inserts_def show_int_def show_nat.simps)
qed

text \<open>What an exit of the loop tells about the state it leaves.\<close>

lemma loop_body_Inl:
  assumes "loop_body Q debug validate v st = Inl (st', code)"
  shows "validate \<and> code = 1 \<and> 0 \<le> v \<and> \<not> insert_mode st \<and>
         (qs_count Q (qs st) v \<noteq> 0) \<noteq> (v \<in> us st) \<and>
         st' = st\<lparr>calls := calls st @ [Count v],
                  cerr := cerr st @
                    [''Validation error: contains('' @ show_int v @ '') should be '' @
                     show_bool (v \<in> us st)]\<rparr>"
  using assms
  by (auto simp: loop_body_def on_query_def check_query_def Let_def
           split: if_splits sum.splits)

lemma loop_body_mismatch:
  assumes "0 \<le> v" and "\<not> insert_mode st" and "(qs_count Q (qs st) v \<noteq> 0) \<noteq> (v \<in> us st)"
  shows "loop_body Q debug True v st =
         Inl (st\<lparr>calls := calls st @ [Count v],
                 cerr := cerr st @
                   [''Validation error: contains('' @ show_int v @ '') should be '' @
                    show_bool (v \<in> us st)]\<rparr>, 1)"
  using assms by (auto simp: loop_body_def on_query_def check_query_def Let_def)

lemma while_true_Exited:
  "while_true Q debug validate s v st = Exited code st' \<Longrightarrow>
   validate \<and> code = 1 \<and>
   (\<exists>x. 0 \<le> x \<and> (qs_count Q (qs st') x \<noteq> 0) \<noteq> (x \<in> us st') \<and>
        cerr st' \<noteq> [] \<and>
        last (cerr st') =
          ''Validation error: contains('' @ show_int x @ '') should be '' @
          show_bool (x \<in> us st'))"
proof (induction Q debug validate s v st rule: while_true.induct)
  case (1 Q debug validate s v st)
  obtain s1 v1 where ex: "extract_int s v = (s1, v1)" by (cases "extract_int s v")
  show ?case
  proof (cases "good s1")
    case False
    with ex "1.prems" show ?thesis by (simp add: while_true.simps)
  next
    case True
    show ?thesis
    proof (cases "loop_body Q debug validate v1 st")
      case (Inl stop)
      obtain st1 c where stop: "stop = (st1, c)" by (cases stop)
      with Inl ex True "1.prems" have "st' = st1" "code = c"
        by (simp_all add: while_true.simps)
      with Inl stop loop_body_Inl[of Q debug validate v1 st st' code] show ?thesis
        by auto
    next
      case (Inr st1)
      with ex True "1.prems" have "while_true Q debug validate s1 v1 st1 = Exited code st'"
        by (simp add: while_true.simps)
      with "1.IH"[OF ex[symmetric] _ Inr] True show ?thesis by simp
    qed
  qed
qed

text \<open>
  Claim C8, with the report as the code writes it. In validation mode, a query whose
  result under test differs from the membership in the reference set ends the process
  at once with exit status 1, after one line on \<open>std::cerr\<close> that names the value and the result the reference expects
  (the negation of the result obtained); nothing after it is read. A structure that
  answers false for 7 on the stream \<open>7 -1 7 -1\<close> does so. A run ends with a non-zero
  status only in this way, so a run without a mismatch ends with status 0 when the
  stream is exhausted.
\<close>

theorem validation_mismatch_aborts:
  "(extract_int s v0 = (s', v) \<and> good s' \<and> 0 \<le> v \<and> \<not> insert_mode st \<and>
    (qs_count Q (qs st) v \<noteq> 0) \<noteq> (v \<in> us st) \<longrightarrow>
    while_true Q debug True s v0 st =
      Exited 1 (st\<lparr>calls := calls st @ [Count v],
                   cerr := cerr st @
                     [''Validation error: contains('' @ show_int v @ '') should be '' @
                      show_bool (v \<in> us st)]\<rparr>)) \<and>
   run_ops broken_structure False True () (istream ''7 -1 7 -1'') v0 =
     Exited 1 \<lparr>qs = (), us = {7}, insert_mode = False, cout = [],
       cerr = [''Validation error: contains(7) should be 1''],
       calls = [Insert 7, Count 7]\<rparr> \<and>
   (exit_status (run_ops Q debug validate q s v0) \<noteq> 0 \<longrightarrow>
    validate \<and>
    (\<exists>st x. run_ops Q debug validate q s v0 = Exited 1 st \<and> 0 \<le> x \<and>
       (qs_count Q (qs st) x \<noteq> 0) \<noteq> (x \<in> us st) \<and>
       cerr st \<noteq> [] \<and>
       last (cerr st) =
         ''Validation error: contains('' @ show_int x @ '') should be '' @
         show_bool (x \<in> us st)))"
proof (intro conjI impI)
  assume h: "extract_int s v0 = (s', v) \<and> good s' \<and> 0 \<le> v \<and> \<not> insert_mode st \<and>
    (qs_count Q (qs st) v \<noteq> 0) \<noteq> (v \<in> us st)"
  then have e: "extract_int s v0 = (s', v)" and g: "good s'" and nn: "0 \<le> v"
    and m: "\<not> insert_mode st" and d: "(qs_count Q (qs st) v \<noteq> 0) \<noteq> (v \<in> us st)"
    by simp_all
  show "while_true Q debug True s v0 st =
      Exited 1 (st\<lparr>calls := calls st @ [Count v],
                   cerr := cerr st @
                     [''Validation error: contains('' @ show_int v @ '') should be '' @
                      show_bool (v \<in> us st)]\<rparr>)"
    by (rule while_true_exit[OF e g loop_body_mismatch[OF nn m d]])
next
  show "run_ops broken_structure False True () (istream ''7 -1 7 -1'') v0 =
     Exited 1 \<lparr>qs = (), us = {7}, insert_mode = False, cout = [],
       cerr = [''Validation error: contains(7) should be 1''],
       calls = [Insert 7, Count 7]\<rparr>"
    by (simp add: run_eval broken_structure_def)
next
  assume nz: "exit_status (run_ops Q debug validate q s v0) \<noteq> 0"
  then obtain code st where r: "run_ops Q debug validate q s v0 = Exited code st"
    by (cases "run_ops Q debug validate q s v0") (simp_all add: exit_status_def)
  from while_true_Exited[OF r[unfolded run_ops_def]] r
  show "validate" by simp
  from while_true_Exited[OF r[unfolded run_ops_def]] r
  show "\<exists>st x. run_ops Q debug validate q s v0 = Exited 1 st \<and> 0 \<le> x \<and>
       (qs_count Q (qs st) x \<noteq> 0) \<noteq> (x \<in> us st) \<and>
       cerr st \<noteq> [] \<and>
       last (cerr st) =
         ''Validation error: contains('' @ show_int x @ '') should be '' @
         show_bool (x \<in> us st)"
    by auto
qed

theorem validation_mismatch_aborts_witness:
  "extract_int \<lparr>buf = '' 7 -1'', eofbit = False, failbit = False\<rparr> (- 1) =
     (\<lparr>buf = '' -1'', eofbit = False, failbit = False\<rparr>, 7) \<and>
   good \<lparr>buf = '' -1'', eofbit = False, failbit = False\<rparr> \<and>
   (qs_count broken_structure () 7 \<noteq> 0) \<noteq> (7 \<in> {7 :: int}) \<and>
   while_true broken_structure False True
     \<lparr>buf = '' 7 -1'', eofbit = False, failbit = False\<rparr> (- 1)
     \<lparr>qs = (), us = {7}, insert_mode = False, cout = [], cerr = [], calls = [Insert 7]\<rparr> =
   Exited 1 \<lparr>qs = (), us = {7}, insert_mode = False, cout = [],
       cerr = [''Validation error: contains(7) should be 1''],
       calls = [Insert 7, Count 7]\<rparr> \<and>
   exit_status (run_ops broken_structure False True () (istream ''7 -1 7 -1'') 0) \<noteq> 0"
proof -
  let ?s = "\<lparr>buf = '' 7 -1'', eofbit = False, failbit = False\<rparr>"
  let ?st = "\<lparr>qs = (), us = {7 :: int}, insert_mode = False, cout = [], cerr = [],
     calls = [Insert 7]\<rparr>"
  have e: "extract_int ?s (- 1) = (\<lparr>buf = '' -1'', eofbit = False, failbit = False\<rparr>, 7)"
    by (simp add: run_eval)
  have g: "good \<lparr>buf = '' -1'', eofbit = False, failbit = False\<rparr>"
    by (simp add: good_def)
  have m: "(qs_count broken_structure () 7 \<noteq> 0) \<noteq> (7 \<in> {7 :: int})"
    by (simp add: broken_structure_def)
  have x: "exit_status (run_ops broken_structure False True () (istream ''7 -1 7 -1'') 0) \<noteq> 0"
    by (simp add: run_eval broken_structure_def exit_status_def)
  show ?thesis
    using e g m x
      validation_mismatch_aborts[of ?s "- 1" "\<lparr>buf = '' -1'', eofbit = False, failbit = False\<rparr>"
        7 ?st broken_structure False]
    by (simp add: show_int_def show_nat.simps show_bool_def)
qed


text \<open>
  Claim C8 as first stated has the report give the expected and the actual boolean.
  The line written on a mismatch holds one boolean only, the expected one: on the
  stream \<open>7 -1 7 -1\<close> with a structure that answers false, the expected result prints
  as \<open>1\<close>, the actual one would print as \<open>0\<close>, and no \<open>0\<close> occurs in the only line
  written.
\<close>

theorem validation_report_omits_actual:
  "run_ops broken_structure False True () (istream ''7 -1 7 -1'') 0 =
     Exited 1 \<lparr>qs = (), us = {7}, insert_mode = False, cout = [],
       cerr = [''Validation error: contains(7) should be 1''],
       calls = [Insert 7, Count 7]\<rparr> \<and>
   show_bool (7 \<in> {7 :: int}) = ''1'' \<and>
   show_bool (qs_count broken_structure () 7 \<noteq> 0) = ''0'' \<and>
   CHR ''0'' \<notin> set ''Validation error: contains(7) should be 1''"
  by (simp add: run_eval broken_structure_def)


section \<open>Properties of allocation and teardown\<close>

inductive_cases repr_absNoneE: "repr c po None as"
inductive_cases repr_NodeE: "repr c po (Some (Node v l r)) as"


text \<open>A represented tree depends only on its own nodes, which are live and distinct.\<close>

lemma repr_frame:
  "repr c po t as \<Longrightarrow> (\<forall>a \<in> set as. c' a = c a) \<Longrightarrow> repr c' po t as"
  by (induction rule: repr.induct) (auto intro!: repr.intros)

lemma repr_live: "repr c po t as \<Longrightarrow> set as \<subseteq> dom c"
  by (induction rule: repr.induct) auto

lemma repr_distinct: "repr c po t as \<Longrightarrow> distinct as"
  by (induction rule: repr.induct) auto

lemma repr_length:
  "repr c po t as \<Longrightarrow> length as = (case t of None \<Rightarrow> 0 | Some n \<Rightarrow> length (stored n))"
  by (induction rule: repr.induct) (auto split: option.splits)

text \<open>
  Deleting the root of a represented subtree releases exactly its nodes, children
  first, and touches nothing else.
\<close>

lemma free_all_Nil: "free_all [] m = m"
  by (simp add: free_all_def)

lemma delete_node_repr:
  "repr (nodes m) (Some p) (Some n) as \<Longrightarrow> length (stored n) \<le> k \<Longrightarrow>
   delete_node k p m = Inr (free_all as m)"
proof (induction n arbitrary: p as m k rule: stored.induct)
  case (1 v l r)
  from "1.prems"(1) obtain lp rp ls rs where
    cell: "nodes m p = Some \<lparr>val_h = v, left_h = lp, right_h = rp\<rparr>" and
    L: "repr (nodes m) lp l ls" and R: "repr (nodes m) rp r rs" and
    as: "as = ls @ rs @ [p]" and
    fresh: "p \<notin> set ls" "p \<notin> set rs" "set ls \<inter> set rs = {}"
    by (auto elim: repr_NodeE)
  from "1.prems"(2) obtain k' where k: "k = Suc k'" by (cases k) auto
  have left: "(case lp of None \<Rightarrow> Inr m | Some q \<Rightarrow> delete_node k' q m) = Inr (free_all ls m)"
  proof (cases l)
    case None
    with L show ?thesis by (auto elim: repr_absNoneE simp: free_all_Nil)
  next
    case (Some ln)
    with L obtain q where "lp = Some q" by (auto elim: repr.cases)
    moreover from Some "1.prems"(2) k have "length (stored ln) \<le> k'" by simp
    ultimately show ?thesis using "1.IH"(1)[OF Some, of m q ls k'] L Some by simp
  qed
  let ?m1 = "free_all ls m"
  have cell1: "nodes ?m1 p = Some \<lparr>val_h = v, left_h = lp, right_h = rp\<rparr>"
    using cell fresh by (simp add: free_all_def)
  have R1: "repr (nodes ?m1) rp r rs"
    using fresh by (intro repr_frame[OF R]) (auto simp: free_all_def)
  have right: "(case rp of None \<Rightarrow> Inr ?m1 | Some q \<Rightarrow> delete_node k' q ?m1) = Inr (free_all rs ?m1)"
  proof (cases r)
    case None
    with R show ?thesis by (auto elim: repr_absNoneE simp: free_all_Nil)
  next
    case (Some rn)
    with R obtain q where "rp = Some q" by (auto elim: repr.cases)
    moreover from Some "1.prems"(2) k have "length (stored rn) \<le> k'" by simp
    ultimately show ?thesis using "1.IH"(2)[OF Some, of ?m1 q rs k'] R1 Some by simp
  qed
  let ?m2 = "free_all rs ?m1"
  have cell2: "nodes ?m2 p = Some \<lparr>val_h = v, left_h = lp, right_h = rp\<rparr>"
    using cell fresh by (simp add: free_all_def)
  have c2: "(nodes ?m2)(p := None) = (\<lambda>a. if a \<in> set as then None else nodes m a)"
    by (auto simp: free_all_def as fun_eq_iff)
  have r2: "released ?m2 @ [p] = released m @ as"
    by (simp add: free_all_def as)
  have final: "?m2\<lparr>nodes := (nodes ?m2)(p := None), released := released ?m2 @ [p]\<rparr> = free_all as m"
    unfolding c2 r2 by (simp add: free_all_def)
  show ?case
    using left right cell cell1 cell2 final by (simp add: k)
qed

text \<open>
  \<open>node::insert\<close> on the store does what \<open>node_insert\<close> does on the tree, allocating at
  most one node.
\<close>

lemma grown_refl: "\<forall>a \<in> set as. a < next_addr m \<Longrightarrow> grown m as m as"
  by (auto simp: grown_def)

lemma repr_leaf:
  "c a = Some \<lparr>val_h = x, left_h = None, right_h = None\<rparr> \<Longrightarrow>
   repr c (Some a) (Some (Node x None None)) [a]"
  using repr_node[of c a x None None None "[]" None "[]"] by (simp add: repr_null)

lemma node_insert_h_refines:
  "repr (nodes m) (Some p) (Some n) as \<Longrightarrow> \<forall>a \<in> set as. a < next_addr m \<Longrightarrow>
   length (stored n) \<le> k \<Longrightarrow>
   \<exists>m' as'. node_insert_h k p x m = Inr m' \<and>
     repr (nodes m') (Some p) (Some (node_insert n x)) as' \<and> grown m as m' as'"
proof (induction n x arbitrary: p as m k rule: node_insert.induct)
  case (1 v l r x)
  from "1.prems"(1) obtain lp rp ls rs where
    cell: "nodes m p = Some \<lparr>val_h = v, left_h = lp, right_h = rp\<rparr>" and
    L: "repr (nodes m) lp l ls" and R: "repr (nodes m) rp r rs" and
    as: "as = ls @ rs @ [p]" and
    fresh: "p \<notin> set ls" "p \<notin> set rs" "set ls \<inter> set rs = {}"
    by (auto elim: repr_NodeE)
  from "1.prems"(3) obtain k' where k: "k = Suc k'" by (cases k) auto
  from "1.prems"(2) as have below: "p < next_addr m" "\<forall>a \<in> set ls. a < next_addr m"
    "\<forall>a \<in> set rs. a < next_addr m" by auto
  let ?a = "next_addr m"
  let ?new = "\<lparr>val_h = x, left_h = None, right_h = None\<rparr>"
  consider (eq) "v = x" | (right_new) "v \<noteq> x" "v < x" "r = None"
    | (right_rec) rn where "v \<noteq> x" "v < x" "r = Some rn"
    | (left_new) "v \<noteq> x" "\<not> v < x" "l = None"
    | (left_rec) ln where "v \<noteq> x" "\<not> v < x" "l = Some ln"
    by (cases l; cases r) auto
  then show ?case
  proof cases
    case eq
    with cell "1.prems" show ?thesis
      by (auto simp: k intro!: grown_refl)
  next
    case right_new
    with R have rp: "rp = None" and rs: "rs = []" by (auto elim: repr_absNoneE)
    let ?m' = "m\<lparr>nodes := (nodes m)(?a \<mapsto> ?new, p \<mapsto> \<lparr>val_h = v, left_h = lp, right_h = Some ?a\<rparr>),
                  next_addr := Suc ?a\<rparr>"
    have run: "node_insert_h k p x m = Inr ?m'"
      using cell right_new rp by (simp add: k new_node_def)
    have L': "repr (nodes ?m') lp l ls"
      using fresh below by (intro repr_frame[OF L]) auto
    have N': "repr (nodes ?m') (Some ?a) (Some (Node x None None)) [?a]"
      using below by (intro repr_leaf) auto
    have "repr (nodes ?m') (Some p) (Some (Node v l (Some (Node x None None)))) (ls @ [?a] @ [p])"
      using fresh below by (intro repr_node[OF _ L' N']) auto
    moreover have "grown m as ?m' (ls @ [?a] @ [p])"
      using below by (auto simp: grown_def as rs)
    ultimately show ?thesis using run right_new by auto
  next
    case right_rec
    with R obtain q where rp: "rp = Some q" by (auto elim: repr.cases)
    from right_rec "1.prems"(3) k have "length (stored rn) \<le> k'" by simp
    from "1.IH"(1)[OF right_rec(1) _ right_rec(3) R[unfolded rp right_rec(3)] below(3) this]
      right_rec(2)
    obtain m' rs' where
      run': "node_insert_h k' q x m = Inr m'" and
      R': "repr (nodes m') (Some q) (Some (node_insert rn x)) rs'" and
      g: "grown m rs m' rs'"
      by auto
    have run: "node_insert_h k p x m = Inr m'"
      using cell right_rec rp run' by (simp add: k)
    from g below fresh have p': "p \<notin> set rs'" and disj: "set ls \<inter> set rs' = {}"
      by (auto simp: grown_def)
    have cell': "nodes m' p = Some \<lparr>val_h = v, left_h = lp, right_h = Some q\<rparr>"
      using g p' cell rp by (simp add: grown_def)
    have L': "repr (nodes m') lp l ls"
      using g disj by (intro repr_frame[OF L]) (auto simp: grown_def)
    have "repr (nodes m') (Some p) (Some (Node v l (Some (node_insert rn x)))) (ls @ rs' @ [p])"
      using fresh p' disj by (intro repr_node[OF cell' L' R']) auto
    moreover have "grown m as m' (ls @ rs' @ [p])"
      using g below by (auto simp: grown_def as)
    ultimately show ?thesis using run right_rec by auto
  next
    case left_new
    with L have lp: "lp = None" and ls: "ls = []" by (auto elim: repr_absNoneE)
    let ?m' = "m\<lparr>nodes := (nodes m)(?a \<mapsto> ?new, p \<mapsto> \<lparr>val_h = v, left_h = Some ?a, right_h = rp\<rparr>),
                  next_addr := Suc ?a\<rparr>"
    have run: "node_insert_h k p x m = Inr ?m'"
      using cell left_new lp by (simp add: k new_node_def)
    have R': "repr (nodes ?m') rp r rs"
      using fresh below by (intro repr_frame[OF R]) auto
    have N': "repr (nodes ?m') (Some ?a) (Some (Node x None None)) [?a]"
      using below by (intro repr_leaf) auto
    have "repr (nodes ?m') (Some p) (Some (Node v (Some (Node x None None)) r)) ([?a] @ rs @ [p])"
      using fresh below by (intro repr_node[OF _ N' R']) auto
    moreover have "grown m as ?m' ([?a] @ rs @ [p])"
      using below by (auto simp: grown_def as ls)
    ultimately show ?thesis using run left_new by auto
  next
    case left_rec
    with L obtain q where lp: "lp = Some q" by (auto elim: repr.cases)
    from left_rec "1.prems"(3) k have "length (stored ln) \<le> k'" by simp
    from "1.IH"(2)[OF left_rec(1) left_rec(2) left_rec(3) L[unfolded lp left_rec(3)] below(2) this]
    obtain m' ls' where
      run': "node_insert_h k' q x m = Inr m'" and
      L': "repr (nodes m') (Some q) (Some (node_insert ln x)) ls'" and
      g: "grown m ls m' ls'"
      by auto
    have run: "node_insert_h k p x m = Inr m'"
      using cell left_rec lp run' by (simp add: k)
    from g below fresh have p': "p \<notin> set ls'" and disj: "set ls' \<inter> set rs = {}"
      by (auto simp: grown_def)
    have cell': "nodes m' p = Some \<lparr>val_h = v, left_h = Some q, right_h = rp\<rparr>"
      using g p' cell lp by (simp add: grown_def)
    have R': "repr (nodes m') rp r rs"
      using g disj by (intro repr_frame[OF R]) (auto simp: grown_def)
    have "repr (nodes m') (Some p) (Some (Node v (Some (node_insert ln x)) r)) (ls' @ rs @ [p])"
      using fresh p' disj by (intro repr_node[OF cell' L' R']) auto
    moreover have "grown m as m' (ls' @ rs @ [p])"
      using g below by (auto simp: grown_def as)
    ultimately show ?thesis using run left_rec by auto
  qed
qed

text \<open>The store built by a sequence of insertions holds the tree built by it.\<close>

lemma store_inv_empty: "store_inv empty_store binary_tree []"
  by (simp add: store_inv_def empty_store_def binary_tree_def repr_null)

lemma insert_h_refines:
  assumes "store_inv m t as" and "length (contents t) \<le> k"
  shows "\<exists>m' as'. insert_h k x m = Inr m' \<and> store_inv m' (insert_bt t x) as'"
proof (cases "root t")
  case None
  with assms(1) have rp: "root_h m = None" and as: "as = []"
    by (auto simp: store_inv_def elim: repr_absNoneE)
  with assms(1) have emp: "dom (nodes m) = {}" and rel: "released m = []"
    by (auto simp: store_inv_def)
  let ?a = "next_addr m"
  let ?m' = "m\<lparr>nodes := (nodes m)(?a \<mapsto> \<lparr>val_h = x, left_h = None, right_h = None\<rparr>),
                next_addr := Suc ?a, root_h := Some ?a\<rparr>"
  have "insert_h k x m = Inr ?m'"
    using rp by (simp add: insert_h_def new_node_def)
  moreover have "store_inv ?m' (insert_bt t x) [?a]"
    using None emp rel by (auto simp: store_inv_def insert_bt_def intro!: repr_leaf)
  ultimately show ?thesis by blast
next
  case (Some n)
  with assms(1) obtain p where rp: "root_h m = Some p"
    by (auto simp: store_inv_def elim: repr.cases)
  from assms(1) Some rp have R: "repr (nodes m) (Some p) (Some n) as"
    and below: "\<forall>a \<in> set as. a < next_addr m" and dom: "set as = dom (nodes m)"
    and rel: "released m = []"
    by (simp_all add: store_inv_def)
  from assms(2) Some have "length (stored n) \<le> k" by (simp add: contents_def)
  from node_insert_h_refines[OF R below this, of x] obtain m' as' where
    run: "node_insert_h k p x m = Inr m'" and
    R': "repr (nodes m') (Some p) (Some (node_insert n x)) as'" and
    g: "grown m as m' as'"
    by blast
  have "insert_h k x m = Inr m'"
    using rp run by (simp add: insert_h_def)
  moreover have "set as' = dom (nodes m')"
  proof
    show "set as' \<subseteq> dom (nodes m')" by (rule repr_live[OF R'])
    show "dom (nodes m') \<subseteq> set as'"
    proof
      fix a assume a: "a \<in> dom (nodes m')"
      show "a \<in> set as'"
      proof (rule ccontr)
        assume n: "a \<notin> set as'"
        with g have "nodes m' a = nodes m a" by (simp add: grown_def)
        with a dom have "a \<in> set as" by auto
        with g n show False by (auto simp: grown_def)
      qed
    qed
  qed
  moreover have "store_inv m' (insert_bt t x) as'"
    using R' g rp rel Some calculation(2) by (simp add: store_inv_def insert_bt_def grown_def)
  ultimately show ?thesis by blast
qed

lemma length_stored_node_insert: "length (stored (node_insert n x)) \<le> Suc (length (stored n))"
  by (induction n x rule: node_insert.induct) (auto split: option.splits)

lemma length_contents_insert_bt: "length (contents (insert_bt t x)) \<le> Suc (length (contents t))"
  by (cases "root t") (simp_all add: contents_def insert_bt_def length_stored_node_insert)

lemma inserts_h_refines:
  "store_inv m t as \<Longrightarrow> length (contents t) + length xs \<le> k \<Longrightarrow>
   \<exists>m' as'. inserts_h k xs m = Inr m' \<and> store_inv m' (inserts t xs) as'"
proof (induction xs arbitrary: m t as)
  case Nil
  then show ?case by (auto simp: inserts_def)
next
  case (Cons x xs)
  from Cons.prems(2) have "length (contents t) \<le> k" by simp
  from insert_h_refines[OF Cons.prems(1) this, of x] obtain m1 as1 where
    step: "insert_h k x m = Inr m1" and inv1: "store_inv m1 (insert_bt t x) as1"
    by blast
  from Cons.prems(2) length_contents_insert_bt[of t x]
  have "length (contents (insert_bt t x)) + length xs \<le> k" by simp
  from Cons.IH[OF inv1 this] step show ?case by (simp add: inserts_def)
qed

lemma destroy_bt_store_inv:
  assumes "store_inv m t as" and "length (contents t) \<le> k"
  shows "destroy_bt k m = Inr (free_all as m)"
proof (cases "root t")
  case None
  with assms(1) have "root_h m = None" "as = []"
    by (auto simp: store_inv_def elim: repr_absNoneE)
  then show ?thesis by (simp add: destroy_bt_def free_all_Nil)
next
  case (Some n)
  with assms(1) obtain p where rp: "root_h m = Some p"
    by (auto simp: store_inv_def elim: repr.cases)
  from assms(1) Some rp have R: "repr (nodes m) (Some p) (Some n) as"
    by (simp add: store_inv_def)
  from assms(2) Some have "length (stored n) \<le> k" by (simp add: contents_def)
  from delete_node_repr[OF R this] rp show ?thesis by (simp add: destroy_bt_def)
qed

lemma contents_binary_tree: "contents binary_tree = []"
  by (simp add: contents_def binary_tree_def)

lemma length_contents_inserts: "length (contents (inserts binary_tree xs)) = card (set xs)"
proof -
  have "bst_invariant (inserts binary_tree xs)"
    by (rule bst_invariant_inserts[OF bst_invariant_empty])
  then have "distinct (contents (inserts binary_tree xs))"
    by (auto simp: bst_invariant_def contents_def distinct_stored split: option.splits)
  then have "length (contents (inserts binary_tree xs)) = card (set (contents (inserts binary_tree xs)))"
    by (simp add: distinct_card)
  also have "set (contents (inserts binary_tree xs)) = set xs"
    using contents_inserts[of binary_tree xs] by (simp add: contents_binary_tree)
  finally show ?thesis .
qed

lemmas store_eval = insert_h_def new_node_def destroy_bt_def empty_store_def

text \<open>
  Claim C10. A \<open>binary_tree\<close> built by any sequence of insertions holds \<open>N\<close> distinct
  values in \<open>N\<close> nodes. Its destructor, given room for the depth of the recursion,
  ends without a fault and releases exactly these \<open>N\<close> nodes: the addresses released
  are those of the nodes of the tree (children before their parent), \<open>N\<close> of them, none
  twice, and no node is left in the store.
\<close>

theorem teardown_releases_each_node_once:
  assumes "length xs \<le> k"
  shows "\<exists>m m'. inserts_h k xs empty_store = Inr m \<and> destroy_bt k m = Inr m' \<and>
           card (dom (nodes m)) = card (set xs) \<and> released m = [] \<and>
           repr (nodes m) (root_h m) (root (inserts binary_tree xs)) (released m') \<and>
           length (released m') = card (set xs) \<and> distinct (released m') \<and>
           set (released m') = dom (nodes m) \<and> nodes m' = Map.empty"
proof -
  let ?t = "inserts binary_tree xs"
  have "length (contents (binary_tree :: 'a binary_tree)) + length xs \<le> k"
    using assms by (simp add: contents_def binary_tree_def)
  from inserts_h_refines[OF store_inv_empty this] obtain m as where
    build: "inserts_h k xs empty_store = Inr m" and inv: "store_inv m ?t as"
    by blast
  have len: "length as = card (set xs)"
    using inv repr_length[of "nodes m" "root_h m" "root ?t" as] length_contents_inserts[of xs]
    by (simp add: store_inv_def contents_def split: option.splits)
  have dist: "distinct as"
    using inv by (auto simp: store_inv_def intro: repr_distinct)
  have dom: "set as = dom (nodes m)" and rel: "released m = []"
    using inv by (simp_all add: store_inv_def)
  have "length (contents ?t) \<le> k"
    using assms card_length[of xs] by (simp add: length_contents_inserts)
  from destroy_bt_store_inv[OF inv this] have tear: "destroy_bt k m = Inr (free_all as m)" .
  have "card (dom (nodes m)) = card (set xs)"
    using dom dist len by (metis distinct_card)
  moreover have "nodes (free_all as m) = Map.empty"
    using dom by (auto simp: free_all_def fun_eq_iff)
  ultimately show ?thesis
    using build tear len dist dom rel inv by (auto simp: free_all_def store_inv_def)
qed


theorem teardown_releases_each_node_once_witness:
  "length [5, 3, 8, 3 :: int] \<le> 4 \<and>
   (\<exists>m m'. inserts_h 4 [5, 3, 8, 3 :: int] empty_store = Inr m \<and> destroy_bt 4 m = Inr m' \<and>
           card (dom (nodes m)) = card (set [5, 3, 8, 3 :: int]) \<and> released m = [] \<and>
           repr (nodes m) (root_h m) (root (inserts binary_tree [5, 3, 8, 3 :: int]))
             (released m') \<and>
           length (released m') = card (set [5, 3, 8, 3 :: int]) \<and> distinct (released m') \<and>
           set (released m') = dom (nodes m) \<and> nodes m' = Map.empty) \<and>
   (case inserts_h 4 [5, 3, 8, 3 :: int] empty_store of
      Inl e \<Rightarrow> False
    | Inr m \<Rightarrow>
        next_addr m = 3 \<and> dom (nodes m) = {0, 1, 2} \<and>
        (case destroy_bt 4 m of
           Inl e \<Rightarrow> False
         | Inr m' \<Rightarrow> released m' = [1, 2, 0] \<and> nodes m' = Map.empty))"
proof -
  have h: "length [5, 3, 8, 3 :: int] \<le> 4" by simp
  have c: "(case inserts_h 4 [5, 3, 8, 3 :: int] empty_store of
      Inl e \<Rightarrow> False
    | Inr m \<Rightarrow>
        next_addr m = 3 \<and> dom (nodes m) = {0, 1, 2} \<and>
        (case destroy_bt 4 m of
           Inl e \<Rightarrow> False
         | Inr m' \<Rightarrow> released m' = [1, 2, 0] \<and> nodes m' = Map.empty))"
    by (simp add: store_eval eval_nat_numeral fun_eq_iff insert_commute)
  show ?thesis
    using h teardown_releases_each_node_once[OF h] c by (intro conjI)
qed


end
